theory Spec2Isabelle
  imports Main "HOL-Library.Char_ord" "HOL-Library.List_Lexorder"
begin

section \<open>Values, dictionaries and strings\<close>

text \<open>
  The inspector works on the value returned by \<^verbatim>\<open>json.load\<close>: \<^verbatim>\<open>None\<close>, booleans,
  numbers, strings, lists and dictionaries with string keys. A dictionary is an
  association list in insertion order; \<^verbatim>\<open>json.load\<close> never produces a dictionary with a
  repeated key. Strings are byte strings (the ASCII range is what the case conversions
  of the inspector act on here), numbers are integers: no function of the inspector
  computes with a number.
\<close>

datatype json =
    JNull
  | JBool bool
  | JNum int
  | JStr string
  | JArr "json list"
  | JObj "(string \<times> json) list"

datatype pyerr = AttributeError | TypeError | KeyError | ReError

text \<open>\<^verbatim>\<open>d.get(k, default)\<close>, \<^verbatim>\<open>d[k] = v\<close> (an existing key keeps its position, a new
  key goes to the end) and \<^verbatim>\<open>k in d\<close> on a dictionary.\<close>

definition dict_get :: "(string \<times> 'v) list \<Rightarrow> string \<Rightarrow> 'v \<Rightarrow> 'v" where
  "dict_get d k dflt = (case map_of d k of None \<Rightarrow> dflt | Some v \<Rightarrow> v)"

fun dict_set :: "(string \<times> 'v) list \<Rightarrow> string \<Rightarrow> 'v \<Rightarrow> (string \<times> 'v) list" where
  "dict_set [] k v = [(k, v)]"
| "dict_set ((k', v') # d) k v =
     (if k' = k then (k, v) # d else (k', v') # dict_set d k v)"

text \<open>
  \<^verbatim>\<open>str.lower()\<close> and \<^verbatim>\<open>str.upper()\<close>. The two functions below change the ASCII
  letters only, so they are the Python methods on ASCII strings and on nothing else
  (Python also maps letters outside ASCII). The method test of line 29 is exact on every
  string, since no letter outside ASCII lowers to a letter of a method name. The
  theorems on the text search and on the category lookup, which pin a converted
  string, assume \<open>is_ascii\<close> of it.
\<close>

definition lower_char :: "char \<Rightarrow> char" where
  "lower_char c =
     (let n = (of_char c :: nat) in if 65 \<le> n \<and> n \<le> 90 then char_of (n + 32) else c)"

definition upper_char :: "char \<Rightarrow> char" where
  "upper_char c =
     (let n = (of_char c :: nat) in if 97 \<le> n \<and> n \<le> 122 then char_of (n - 32) else c)"

definition lower :: "string \<Rightarrow> string" where
  "lower s = map lower_char s"

definition upper :: "string \<Rightarrow> string" where
  "upper s = map upper_char s"

definition is_ascii :: "string \<Rightarrow> bool" where
  "is_ascii s \<longleftrightarrow> list_all (\<lambda>c. (of_char c :: nat) < 128) s"

section \<open>Endpoint extraction\<close>

text \<open>
  \<^verbatim>\<open>extract_endpoints\<close> always builds a dictionary from path to a dictionary from
  method key to a dictionary of seven fields; these three layers are the types below.
\<close>

type_synonym details = "(string \<times> json) list"
type_synonym methods = "(string \<times> details) list"
type_synonym endpoints = "(string \<times> methods) list"

definition method_names :: "string list" where
  "method_names = [''get'', ''post'', ''put'', ''delete'', ''patch'']"

text \<open>The dictionary literal of lines 30-38: one \<^verbatim>\<open>operation.get\<close> per field.\<close>

definition operation_record :: "(string \<times> json) list \<Rightarrow> details" where
  "operation_record operation =
     [(''summary'', dict_get operation ''summary'' (JStr '''')),
      (''description'', dict_get operation ''description'' (JStr '''')),
      (''parameters'', dict_get operation ''parameters'' (JArr [])),
      (''requestBody'', dict_get operation ''requestBody'' (JObj [])),
      (''responses'', dict_get operation ''responses'' (JObj [])),
      (''tags'', dict_get operation ''tags'' (JArr [])),
      (''operationId'', dict_get operation ''operationId'' (JStr ''''))]"

text \<open>
  The inner loop over \<^verbatim>\<open>path_data.items()\<close>; the accumulator is \<^verbatim>\<open>endpoints[path]\<close>.
  \<^verbatim>\<open>operation.get\<close> on a value that is not a dictionary raises AttributeError, and it
  is reached only for a key that passes the method test.
\<close>

fun extract_methods :: "methods \<Rightarrow> (string \<times> json) list \<Rightarrow> pyerr + methods" where
  "extract_methods acc [] = Inr acc"
| "extract_methods acc ((method, operation) # rest) =
     (if lower method \<in> set method_names then
        (case operation of
           JObj op \<Rightarrow> extract_methods (dict_set acc method (operation_record op)) rest
         | _ \<Rightarrow> Inl AttributeError)
      else extract_methods acc rest)"

text \<open>
  The outer loop over \<^verbatim>\<open>spec.get('paths', {}).items()\<close>. \<^verbatim>\<open>endpoints[path] = {}\<close>
  enters the key, then the inner loop fills that dictionary in place: the key is
  written here once, with the filled dictionary. \<^verbatim>\<open>path_data.items()\<close> on a value
  that is not a dictionary raises AttributeError.
\<close>

fun extract_paths :: "endpoints \<Rightarrow> (string \<times> json) list \<Rightarrow> pyerr + endpoints" where
  "extract_paths eps [] = Inr eps"
| "extract_paths eps ((path, path_data) # rest) =
     (case path_data of
        JObj item \<Rightarrow>
          (case extract_methods [] item of
             Inl e \<Rightarrow> Inl e
           | Inr ms \<Rightarrow> extract_paths (dict_set eps path ms) rest)
      | _ \<Rightarrow> Inl AttributeError)"

definition extract_endpoints :: "json \<Rightarrow> pyerr + endpoints" where
  "extract_endpoints spec =
     (case spec of
        JObj d \<Rightarrow>
          (case dict_get d ''paths'' (JObj []) of
             JObj paths \<Rightarrow> extract_paths [] paths
           | _ \<Rightarrow> Inl AttributeError)
      | _ \<Rightarrow> Inl AttributeError)"

section \<open>Path grouping\<close>

text \<open>\<^verbatim>\<open>s.strip('/')\<close> and \<^verbatim>\<open>s.split('/')\<close>: the split of the empty string is the
  list holding the empty string, and two adjacent separators give an empty segment.\<close>

definition strip :: "char \<Rightarrow> string \<Rightarrow> string" where
  "strip c s = rev (dropWhile (\<lambda>x. x = c) (rev (dropWhile (\<lambda>x. x = c) s)))"

fun split_on :: "char \<Rightarrow> string \<Rightarrow> string list" where
  "split_on c [] = [[]]"
| "split_on c (x # xs) =
     (if x = c then [] # split_on c xs
      else (case split_on c xs of [] \<Rightarrow> [[x]] | w # ws \<Rightarrow> (x # w) # ws))"

definition path_parts :: "string \<Rightarrow> string list" where
  "path_parts path = split_on CHR ''/'' (strip CHR ''/'' path)"

text \<open>
  The tree is a dictionary of dictionaries of any depth, so it is a \<^typ>\<open>json\<close> value;
  the method dictionary stored under \<^verbatim>\<open>'_methods'\<close> becomes one with \<open>methods_json\<close>.
  \<open>insert_path\<close> is the loop over \<^verbatim>\<open>parts\<close> followed by \<^verbatim>\<open>current['_methods'] = methods\<close>.
  The loop never checks what \<^verbatim>\<open>current[part]\<close> is: when it is a dictionary the walk
  goes on inside it (also inside a stored method dictionary), and on any other value
  the membership test, the item assignment or the subscript raises TypeError.
  The source mutates the nodes in place; no node is reachable along two routes, so
  returning the rebuilt value gives the same tree.
\<close>

definition methods_json :: "methods \<Rightarrow> json" where
  "methods_json ms = JObj (map (\<lambda>(m, d). (m, JObj d)) ms)"

fun insert_path :: "json \<Rightarrow> string list \<Rightarrow> json \<Rightarrow> pyerr + json" where
  "insert_path (JObj current) [] ms = Inr (JObj (dict_set current ''_methods'' ms))"
| "insert_path (JObj current) (part # parts) ms =
     (case insert_path (dict_get current part (JObj [])) parts ms of
        Inl e \<Rightarrow> Inl e
      | Inr child \<Rightarrow> Inr (JObj (dict_set current part child)))"
| "insert_path _ _ _ = Inl TypeError"

fun group_paths :: "json \<Rightarrow> endpoints \<Rightarrow> pyerr + json" where
  "group_paths grouped [] = Inr grouped"
| "group_paths grouped ((path, ms) # rest) =
     (case insert_path grouped (path_parts path) (methods_json ms) of
        Inl e \<Rightarrow> Inl e
      | Inr g \<Rightarrow> group_paths g rest)"

definition group_by_path :: "endpoints \<Rightarrow> pyerr + json" where
  "group_by_path eps = group_paths (JObj []) eps"

text \<open>
  Walking the tree as \<^verbatim>\<open>print_grouped_endpoints\<close> does: the key \<^verbatim>\<open>'_methods'\<close> holds the
  methods of the node, any other key is a child segment. The walk collects, for every
  method found, the segment keys that lead to its node.
\<close>

fun tree_pairs :: "string list \<Rightarrow> json \<Rightarrow> (string list \<times> string) list"
  and tree_pairs_items :: "string list \<Rightarrow> (string \<times> json) list \<Rightarrow> (string list \<times> string) list"
where
  "tree_pairs pre (JObj kvs) = tree_pairs_items pre kvs"
| "tree_pairs pre _ = []"
| "tree_pairs_items pre [] = []"
| "tree_pairs_items pre ((k, v) # rest) =
     (if k = ''_methods''
      then (case v of JObj ms \<Rightarrow> map (\<lambda>(m, d). (pre, m)) ms | _ \<Rightarrow> [])
      else tree_pairs (pre @ [k]) v) @ tree_pairs_items pre rest"

fun join :: "string \<Rightarrow> string list \<Rightarrow> string" where
  "join sep [] = []"
| "join sep [x] = x"
| "join sep (x # y # ys) = x @ sep @ join sep (y # ys)"

definition rejoin :: "string list \<Rightarrow> string" where
  "rejoin segs = ''/'' @ join ''/'' segs"

definition recovered_pairs :: "json \<Rightarrow> (string \<times> string) list" where
  "recovered_pairs tree = map (\<lambda>(segs, m). (rejoin segs, m)) (tree_pairs [] tree)"

definition endpoint_pairs :: "endpoints \<Rightarrow> (string \<times> string) list" where
  "endpoint_pairs eps = concat (map (\<lambda>(path, ms). map (\<lambda>(m, d). (path, m)) ms) eps)"

text \<open>A path is canonical when re-joining its segments gives it back, and no segment
  is the reserved key.\<close>

definition canonical :: "string \<Rightarrow> bool" where
  "canonical path \<longleftrightarrow>
     rejoin (path_parts path) = path \<and> ''_methods'' \<notin> set (path_parts path)"

section \<open>Output and exceptions\<close>

text \<open>
  A printed line is a list of pieces: literal text, \<^verbatim>\<open>str(v)\<close> of a value interpolated
  by an f-string, or \<^verbatim>\<open>json.dumps(v, indent=2)\<close>. The two library renderings are kept
  as constructors. A run is what a procedure has printed, to standard output or to the
  error stream, and the exception that ended it, if one did.
\<close>

datatype piece = Lit string | Str json | Dumps json

datatype line = Out "piece list" | Err "piece list"

text \<open>An interpolated value: \<^verbatim>\<open>str\<close> of a string is the string.\<close>

fun fmt :: "json \<Rightarrow> piece" where
  "fmt (JStr s) = Lit s"
| "fmt v = Str v"

type_synonym run = "line list \<times> pyerr option"

definition say :: "piece list \<Rightarrow> run" where
  "say ps = ([Out ps], None)"

definition say_err :: "piece list \<Rightarrow> run" where
  "say_err ps = ([Err ps], None)"

definition raise :: "pyerr \<Rightarrow> run" where
  "raise e = ([], Some e)"

definition skip :: run where
  "skip = ([], None)"

definition then_run :: "run \<Rightarrow> run \<Rightarrow> run" where
  "then_run r1 r2 = (case snd r1 of None \<Rightarrow> (fst r1 @ fst r2, snd r2) | Some e \<Rightarrow> r1)"

definition nl :: string where
  "nl = [CHR 0x0A]"

text \<open>Truth value of a loaded value, and what a \<^verbatim>\<open>for\<close> loop iterates over.\<close>

fun truthy :: "json \<Rightarrow> bool" where
  "truthy JNull = False"
| "truthy (JBool b) = b"
| "truthy (JNum n) = (n \<noteq> 0)"
| "truthy (JStr s) = (s \<noteq> [])"
| "truthy (JArr xs) = (xs \<noteq> [])"
| "truthy (JObj kvs) = (kvs \<noteq> [])"

fun py_iter :: "json \<Rightarrow> pyerr + json list" where
  "py_iter (JArr xs) = Inr xs"
| "py_iter (JStr s) = Inr (map (\<lambda>c. JStr [c]) s)"
| "py_iter (JObj kvs) = Inr (map (\<lambda>(k, v). JStr k) kvs)"
| "py_iter _ = Inl TypeError"

text \<open>\<^verbatim>\<open>sub in s\<close> on strings.\<close>

fun contains :: "string \<Rightarrow> string \<Rightarrow> bool" where
  "contains sub [] = (sub = [])"
| "contains sub (x # xs) = (take (length sub) (x # xs) = sub \<or> contains sub xs)"

section \<open>Tag grouping\<close>

text \<open>
  A bucket record is the three-key dictionary literal of lines 70-74. The buckets are
  keyed by the tag value itself: a list or a dictionary is not hashable (TypeError),
  and \<^verbatim>\<open>True\<close>/\<^verbatim>\<open>False\<close> are the same key as \<^verbatim>\<open>1\<close>/\<^verbatim>\<open>0\<close>.
\<close>

record entry =
  e_path :: string
  e_method :: string
  e_summary :: json

type_synonym buckets = "(json \<times> entry list) list"

fun hashable :: "json \<Rightarrow> bool" where
  "hashable (JArr xs) = False"
| "hashable (JObj kvs) = False"
| "hashable _ = True"

fun key_norm :: "json \<Rightarrow> json" where
  "key_norm (JBool b) = JNum (if b then 1 else 0)"
| "key_norm v = v"

definition key_eq :: "json \<Rightarrow> json \<Rightarrow> bool" where
  "key_eq a b \<longleftrightarrow> key_norm a = key_norm b"

text \<open>\<^verbatim>\<open>grouped[tag].append(r)\<close> on a \<^verbatim>\<open>defaultdict(list)\<close>.\<close>

fun bucket_append :: "buckets \<Rightarrow> json \<Rightarrow> entry \<Rightarrow> buckets" where
  "bucket_append [] tag r = [(tag, [r])]"
| "bucket_append ((k, rs) # g) tag r =
     (if key_eq k tag then (k, rs @ [r]) # g else (k, rs) # bucket_append g tag r)"


text \<open>The loop over \<^verbatim>\<open>tags\<close>: the bucket is looked up first, then the record is built
  (\<^verbatim>\<open>details['summary']\<close> raises KeyError when the key is missing).\<close>

fun tag_loop :: "buckets \<Rightarrow> string \<Rightarrow> string \<Rightarrow> details \<Rightarrow> json list \<Rightarrow> pyerr + buckets" where
  "tag_loop grouped path method details [] = Inr grouped"
| "tag_loop grouped path method details (tag # tags) =
     (if hashable tag then
        (case map_of details ''summary'' of
           None \<Rightarrow> Inl KeyError
         | Some s \<Rightarrow>
             tag_loop
               (bucket_append grouped tag
                  \<lparr>e_path = path, e_method = upper method, e_summary = s\<rparr>)
               path method details tags)
      else Inl TypeError)"

fun tag_methods :: "buckets \<Rightarrow> string \<Rightarrow> methods \<Rightarrow> pyerr + buckets" where
  "tag_methods grouped path [] = Inr grouped"
| "tag_methods grouped path ((method, details) # rest) =
     (case py_iter (dict_get details ''tags'' (JArr [JStr ''untagged''])) of
        Inl e \<Rightarrow> Inl e
      | Inr tags \<Rightarrow>
          (case tag_loop grouped path method details tags of
             Inl e \<Rightarrow> Inl e
           | Inr g \<Rightarrow> tag_methods g path rest))"

fun tag_paths :: "buckets \<Rightarrow> endpoints \<Rightarrow> pyerr + buckets" where
  "tag_paths grouped [] = Inr grouped"
| "tag_paths grouped ((path, ms) # rest) =
     (case tag_methods grouped path ms of
        Inl e \<Rightarrow> Inl e
      | Inr g \<Rightarrow> tag_paths g rest)"

definition group_by_tag :: "endpoints \<Rightarrow> pyerr + buckets" where
  "group_by_tag eps = tag_paths [] eps"

section \<open>Search\<close>

text \<open>
  The regular-expression engine is a parameter: \<open>re_compile\<close> stands for
  \<^verbatim>\<open>re.compile(pattern, re.IGNORECASE)\<close>, giving \<open>None\<close> when it raises \<^verbatim>\<open>re.error\<close>, and
  otherwise the predicate \<^verbatim>\<open>pattern.search(s)\<close> on strings. \<^verbatim>\<open>pattern.search\<close> on a
  value that is not a string raises TypeError.
\<close>

type_synonym regex = "string \<Rightarrow> bool"

fun re_search :: "regex \<Rightarrow> json \<Rightarrow> pyerr + bool" where
  "re_search rx (JStr s) = Inr (rx s)"
| "re_search rx _ = Inl TypeError"

definition method_line :: "string \<Rightarrow> json \<Rightarrow> piece list" where
  "method_line method summary = [Lit (''  '' @ upper method @ '': ''), fmt summary]"

text \<open>Lines 126-128: the loop under a matching path. Its \<^verbatim>\<open>continue\<close> is the last
  statement of the loop body, so it changes nothing.\<close>

fun path_hit :: "methods \<Rightarrow> run" where
  "path_hit [] = skip"
| "path_hit ((method, details) # rest) =
     (case map_of details ''summary'' of
        None \<Rightarrow> raise KeyError
      | Some s \<Rightarrow> then_run (say (method_line method s)) (path_hit rest))"

text \<open>Lines 130-135: the loop over the text fields, left at the first hit. The
  \<^verbatim>\<open>or\<close> does not look at the description when the summary matches.\<close>

definition text_hit :: "string \<Rightarrow> string \<Rightarrow> json \<Rightarrow> run" where
  "text_hit path method summary =
     then_run (say [Lit (nl @ path)]) (say (method_line method summary))"

fun text_search :: "regex \<Rightarrow> string \<Rightarrow> methods \<Rightarrow> run" where
  "text_search rx path [] = skip"
| "text_search rx path ((method, details) # rest) =
     (case map_of details ''summary'' of
        None \<Rightarrow> raise KeyError
      | Some s \<Rightarrow>
          (case re_search rx s of
             Inl e \<Rightarrow> raise e
           | Inr True \<Rightarrow> text_hit path method s
           | Inr False \<Rightarrow>
               (case map_of details ''description'' of
                  None \<Rightarrow> raise KeyError
                | Some d \<Rightarrow>
                    (case re_search rx d of
                       Inl e \<Rightarrow> raise e
                     | Inr True \<Rightarrow> text_hit path method s
                     | Inr False \<Rightarrow> text_search rx path rest))))"

text \<open>The body of the loop over the endpoints: the second loop follows the first
  whether or not the path matched.\<close>

definition search_one :: "regex \<Rightarrow> string \<Rightarrow> methods \<Rightarrow> run" where
  "search_one rx path ms =
     then_run
       (if rx path then then_run (say [Lit (nl @ path)]) (path_hit ms) else skip)
       (text_search rx path ms)"

fun search_loop :: "regex \<Rightarrow> endpoints \<Rightarrow> run" where
  "search_loop rx [] = skip"
| "search_loop rx ((path, ms) # rest) =
     then_run (search_one rx path ms) (search_loop rx rest)"

definition search_endpoints :: "(string \<Rightarrow> regex option) \<Rightarrow> endpoints \<Rightarrow> string \<Rightarrow> run" where
  "search_endpoints re_compile eps pattern =
     (case re_compile pattern of
        None \<Rightarrow> raise ReError
      | Some rx \<Rightarrow>
          then_run (say [Lit (nl @ ''Matching Endpoints:'')]) (search_loop rx eps))"

section \<open>Endpoint and schema lookup\<close>

text \<open>The strings \<^verbatim>\<open>', '.join(v)\<close> joins: every item must be a string.\<close>

fun str_items :: "json list \<Rightarrow> pyerr + string list" where
  "str_items [] = Inr []"
| "str_items (JStr s # vs) =
     (case str_items vs of Inl e \<Rightarrow> Inl e | Inr ss \<Rightarrow> Inr (s # ss))"
| "str_items (v # vs) = Inl TypeError"

definition show_tags :: "details \<Rightarrow> run" where
  "show_tags details =
     (case map_of details ''tags'' of
        None \<Rightarrow> raise KeyError
      | Some tags \<Rightarrow>
          if truthy tags then
            (case py_iter tags of
               Inl e \<Rightarrow> raise e
             | Inr items \<Rightarrow>
                 (case str_items items of
                    Inl e \<Rightarrow> raise e
                  | Inr ss \<Rightarrow> say [Lit (''Tags: '' @ join '', '' ss)]))
          else skip)"

fun param_lines :: "json list \<Rightarrow> run" where
  "param_lines [] = skip"
| "param_lines (JObj param # rest) =
     then_run (say [Lit ''  '', fmt (dict_get param ''name'' JNull), Lit '' ('',
                    fmt (dict_get param ''in'' JNull), Lit '')''])
    (then_run (say [Lit ''    Description: '', fmt (dict_get param ''description'' (JStr []))])
    (then_run (say [Lit ''    Required: '', fmt (dict_get param ''required'' (JBool False))])
              (param_lines rest)))"
| "param_lines (v # rest) = raise AttributeError"

definition show_parameters :: "details \<Rightarrow> run" where
  "show_parameters details =
     (case map_of details ''parameters'' of
        None \<Rightarrow> raise KeyError
      | Some ps \<Rightarrow>
          if truthy ps then
            then_run (say [Lit (nl @ ''Parameters:'')])
              (case py_iter ps of Inl e \<Rightarrow> raise e | Inr items \<Rightarrow> param_lines items)
          else skip)"

definition show_request_body :: "details \<Rightarrow> run" where
  "show_request_body details =
     (case map_of details ''requestBody'' of
        None \<Rightarrow> raise KeyError
      | Some body \<Rightarrow>
          if truthy body then then_run (say [Lit (nl @ ''Request Body:'')]) (say [Dumps body])
          else skip)"

fun response_lines :: "(string \<times> json) list \<Rightarrow> run" where
  "response_lines [] = skip"
| "response_lines ((status, JObj response) # rest) =
     then_run (say [Lit (''  '' @ status @ '': ''), fmt (dict_get response ''description'' (JStr []))])
              (response_lines rest)"
| "response_lines ((status, v) # rest) = raise AttributeError"

definition show_responses :: "details \<Rightarrow> run" where
  "show_responses details =
     (case map_of details ''responses'' of
        None \<Rightarrow> raise KeyError
      | Some rs \<Rightarrow>
          if truthy rs then
            then_run (say [Lit (nl @ ''Responses:'')])
              (case rs of JObj items \<Rightarrow> response_lines items | _ \<Rightarrow> raise AttributeError)
          else skip)"

definition show_method :: "string \<Rightarrow> details \<Rightarrow> run" where
  "show_method method details =
     then_run (say [Lit (nl @ ''Method: '' @ upper method)])
    (then_run (case map_of details ''summary'' of
                 None \<Rightarrow> raise KeyError
               | Some s \<Rightarrow> say [Lit ''Summary: '', fmt s])
    (then_run (case map_of details ''description'' of
                 None \<Rightarrow> raise KeyError
               | Some d \<Rightarrow> say [Lit ''Description: '', fmt d])
    (then_run (show_tags details)
    (then_run (show_parameters details)
    (then_run (show_request_body details)
              (show_responses details))))))"

fun show_methods :: "methods \<Rightarrow> run" where
  "show_methods [] = skip"
| "show_methods ((method, details) # rest) =
     then_run (show_method method details) (show_methods rest)"

definition show_endpoint_details :: "endpoints \<Rightarrow> string \<Rightarrow> run" where
  "show_endpoint_details eps path =
     (case map_of eps path of
        None \<Rightarrow> say_err [Lit (''Endpoint '' @ path @ '' not found'')]
      | Some ms \<Rightarrow> then_run (say [Lit (nl @ ''Endpoint: '' @ path)]) (show_methods ms))"

text \<open>
  \<^verbatim>\<open>print_schema\<close>: the two chained \<^verbatim>\<open>.get\<close> need dictionaries (AttributeError
  otherwise); \<^verbatim>\<open>schema_name not in schemas\<close> is a key test on a dictionary, a
  membership test on a list, a substring test on a string and a TypeError on anything
  else; the subscript of a list or a string by a string raises TypeError.
\<close>

definition quoted :: "string \<Rightarrow> string" where
  "quoted s = [CHR 0x27] @ s @ [CHR 0x27]"

definition schema_not_found :: "string \<Rightarrow> run" where
  "schema_not_found schema_name = say_err [Lit (''Schema '' @ quoted schema_name @ '' not found'')]"

definition print_schema :: "json \<Rightarrow> string \<Rightarrow> run" where
  "print_schema spec schema_name =
     (case spec of
        JObj d \<Rightarrow>
          (case dict_get d ''components'' (JObj []) of
             JObj components \<Rightarrow>
               (case dict_get components ''schemas'' (JObj []) of
                  JObj schemas \<Rightarrow>
                    (case map_of schemas schema_name of
                       None \<Rightarrow> schema_not_found schema_name
                     | Some schema \<Rightarrow>
                         then_run (say [Lit (nl @ ''Schema: '' @ schema_name)]) (say [Dumps schema]))
                | JArr xs \<Rightarrow>
                    if JStr schema_name \<in> set xs then raise TypeError
                    else schema_not_found schema_name
                | JStr s \<Rightarrow>
                    if contains schema_name s then raise TypeError
                    else schema_not_found schema_name
                | _ \<Rightarrow> raise TypeError)
           | _ \<Rightarrow> raise AttributeError)
      | _ \<Rightarrow> raise AttributeError)"

section \<open>Category lookup\<close>











section \<open>Plain listing\<close>

text \<open>The default branch of \<^verbatim>\<open>--list\<close> in \<^verbatim>\<open>main\<close> (lines 363-368); \<open>only\<close> is
  \<^verbatim>\<open>args.method\<close>, \<open>None\<close> when the option is not given. Keys are distinct, so sorting
  the items is sorting by key.\<close>

fun list_methods :: "string option \<Rightarrow> methods \<Rightarrow> run" where
  "list_methods only [] = skip"
| "list_methods only ((method, details) # rest) =
     (if only = None \<or> only = Some [] \<or> map_option upper only = Some (upper method) then
        (case map_of details ''summary'' of
           None \<Rightarrow> raise KeyError
         | Some s \<Rightarrow> then_run (say (method_line method s)) (list_methods only rest))
      else list_methods only rest)"

fun list_paths :: "string option \<Rightarrow> endpoints \<Rightarrow> run" where
  "list_paths only [] = skip"
| "list_paths only ((path, ms) # rest) =
     then_run (say [Lit (nl @ path)])
    (then_run (list_methods only (sort_key fst ms)) (list_paths only rest))"

definition list_endpoints :: "string option \<Rightarrow> endpoints \<Rightarrow> run" where
  "list_endpoints only eps =
     then_run (say [Lit (nl @ ''Available Endpoints:'')]) (list_paths only (sort_key fst eps))"

section \<open>Documents, endpoint maps and patterns the properties are about\<close>

text \<open>
  A specification document is a dictionary whose \<^verbatim>\<open>paths\<close>, when present, maps each
  path to a dictionary (the path item), in which every value under a method key is a
  dictionary (the operation). Keys of a loaded dictionary are distinct. Nothing is asked
  of the other keys of a path item, nor of the fields of an operation.
\<close>

fun is_obj :: "json \<Rightarrow> bool" where
  "is_obj (JObj d) = True"
| "is_obj v = False"

fun members :: "json \<Rightarrow> (string \<times> json) list" where
  "members (JObj d) = d"
| "members v = []"

definition is_method :: "string \<Rightarrow> bool" where
  "is_method m \<longleftrightarrow> lower m \<in> set method_names"

definition valid_item :: "json \<Rightarrow> bool" where
  "valid_item item \<longleftrightarrow>
     is_obj item \<and> distinct (map fst (members item)) \<and>
     list_all (\<lambda>(m, operation). is_method m \<longrightarrow> is_obj operation) (members item)"

definition doc_paths :: "json \<Rightarrow> (string \<times> json) list" where
  "doc_paths spec = members (dict_get (members spec) ''paths'' (JObj []))"

definition valid_doc :: "json \<Rightarrow> bool" where
  "valid_doc spec \<longleftrightarrow>
     is_obj spec \<and> is_obj (dict_get (members spec) ''paths'' (JObj [])) \<and>
     distinct (map fst (doc_paths spec)) \<and>
     list_all (\<lambda>(path, item). valid_item item) (doc_paths spec)"

text \<open>The record of a (path, method) pair in an endpoint map, and the defaults the
  specification lists for the seven fields.\<close>

definition endpoint_at :: "endpoints \<Rightarrow> string \<Rightarrow> string \<Rightarrow> details option" where
  "endpoint_at eps path m = (case map_of eps path of None \<Rightarrow> None | Some ms \<Rightarrow> map_of ms m)"

definition field_defaults :: "(string \<times> json) list" where
  "field_defaults =
     [(''summary'', JStr []), (''description'', JStr []), (''parameters'', JArr []),
      (''requestBody'', JObj []), (''responses'', JObj []), (''tags'', JArr []),
      (''operationId'', JStr [])]"

text \<open>The methods stored in the tree at the node a list of segments leads to.\<close>

fun methods_at :: "json \<Rightarrow> string list \<Rightarrow> json option" where
  "methods_at (JObj kvs) [] = map_of kvs ''_methods''"
| "methods_at (JObj kvs) (p # ps) =
     (if p = ''_methods'' then None
      else (case map_of kvs p of None \<Rightarrow> None | Some child \<Rightarrow> methods_at child ps))"
| "methods_at v ps = None"

text \<open>A tree proper: every node is a dictionary with distinct keys, and every value
  under a key other than \<^verbatim>\<open>'_methods'\<close> is a tree.\<close>

fun wf_tree :: "json \<Rightarrow> bool" and wf_items :: "(string \<times> json) list \<Rightarrow> bool" where
  "wf_tree (JObj kvs) = (distinct (map fst kvs) \<and> wf_items kvs)"
| "wf_tree v = False"
| "wf_items [] = True"
| "wf_items ((k, v) # rest) = ((k = ''_methods'' \<or> wf_tree v) \<and> wf_items rest)"

text \<open>Endpoint maps whose summaries and descriptions are strings, and the test of
  lines 131-132 on one method.\<close>

fun is_str :: "json option \<Rightarrow> bool" where
  "is_str (Some (JStr s)) = True"
| "is_str v = False"

definition text_ok :: "endpoints \<Rightarrow> bool" where
  "text_ok eps \<longleftrightarrow>
     list_all (\<lambda>(path, ms).
       list_all (\<lambda>(m, d). is_str (map_of d ''summary'') \<and> is_str (map_of d ''description'')) ms) eps"

fun text_of :: "json option \<Rightarrow> string" where
  "text_of (Some (JStr s)) = s"
| "text_of v = []"

definition text_matches :: "regex \<Rightarrow> string \<times> details \<Rightarrow> bool" where
  "text_matches rx md \<longleftrightarrow>
     rx (text_of (map_of (snd md) ''summary'')) \<or> rx (text_of (map_of (snd md) ''description''))"

text \<open>
  An instance of the engine to run the examples with. On a pattern without
  metacharacters \<^verbatim>\<open>re.compile\<close> succeeds and, with \<^verbatim>\<open>re.IGNORECASE\<close>, \<^verbatim>\<open>search\<close> is a
  substring test that ignores case. This instance rejects every other pattern, as
  \<^verbatim>\<open>re.compile\<close> rejects the unbalanced parenthesis used below.
\<close>

definition metachars :: "char list" where
  "metachars = ''.^$*+?{}[]|()'' @ [CHR 0x5C]"

definition re_literal :: "string \<Rightarrow> regex option" where
  "re_literal pattern =
     (if list_all (\<lambda>c. c \<notin> set metachars) pattern
      then Some (\<lambda>s. contains (lower pattern) (lower s)) else None)"

text \<open>Example documents.\<close>

definition doc_untagged :: json where
  "doc_untagged =
     JObj [(''paths'', JObj [(''/a'', JObj [(''get'', JObj [(''summary'', JStr ''s'')])])])]"

definition doc_upper :: json where
  "doc_upper = JObj [(''paths'', JObj [(''/a'', JObj [(''GET'', JObj [])])])]"

definition doc_users :: json where
  "doc_users =
     JObj [(''paths'', JObj [(''/users'', JObj [(''get'', JObj [(''summary'', JStr ''List users'')])])])]"

definition eps_users :: endpoints where
  "eps_users = [(''/users'', [(''get'', operation_record [(''summary'', JStr ''List users'')])])]"

definition eps_slash :: endpoints where
  "eps_slash = [(''/a'', [(''get'', operation_record [])]), (''/a/'', [(''post'', operation_record [])])]"

definition doc_slash :: json where
  "doc_slash =
     JObj [(''paths'', JObj [(''/a'', JObj [(''get'', JObj [])]), (''/a/'', JObj [(''post'', JObj [])])])]"

definition tree_slash :: json where
  "tree_slash = JObj [(''a'', JObj [(''_methods'', methods_json [(''post'', operation_record [])])])]"

definition doc_schemas :: json where
  "doc_schemas = JObj [(''components'', JObj [(''schemas'', JObj [(''Bar'', JObj [])])])]"

definition ms_items :: methods where
  "ms_items =
     [(''get'', operation_record [(''summary'', JStr ''List items'')]),
      (''post'', operation_record [(''summary'', JStr ''Add to the list'')])]"

definition eps_items :: endpoints where
  "eps_items = [(''/items'', ms_items)]"

definition rx_list :: regex where
  "rx_list = (\<lambda>s. contains (lower ''list'') (lower s))"

text \<open>Auxiliary predicates and sets of the proofs.\<close>

definition methods_text_ok :: "methods \<Rightarrow> bool" where
  "methods_text_ok ms \<longleftrightarrow>
     list_all (\<lambda>(m, d). is_str (map_of d ''summary'') \<and> is_str (map_of d ''description'')) ms"

definition parts_table :: "endpoints \<Rightarrow> (string list \<times> json) list" where
  "parts_table eps = map (\<lambda>(p, ms). (path_parts p, methods_json ms)) eps"

definition node_pairs :: "string list \<Rightarrow> json \<Rightarrow> (string list \<times> string) set" where
  "node_pairs pre t =
     {(s, m). \<exists>ps ms. s = pre @ ps \<and> methods_at t ps = Some (JObj ms) \<and> m \<in> fst ` set ms}"

definition item_pairs :: "string list \<Rightarrow> string \<Rightarrow> json \<Rightarrow> (string list \<times> string) set" where
  "item_pairs pre k v =
     (if k = ''_methods'' then {(s, m). s = pre \<and> m \<in> fst ` set (members v)}
      else node_pairs (pre @ [k]) v)"

definition item_methods :: "json \<Rightarrow> methods" where
  "item_methods item =
     map (\<lambda>(m, operation). (m, operation_record (members operation)))
       (filter (\<lambda>(m, operation). is_method m) (members item))"

definition has_summary :: "methods \<Rightarrow> bool" where
  "has_summary ms \<longleftrightarrow> list_all (\<lambda>(m, d). map_of d ''summary'' \<noteq> None) ms"

definition doc_empty :: json where
  "doc_empty =
     JObj [(''paths'', JObj [(''/x'', JObj [(''parameters'', JArr [])]), (''/a'', JObj [(''get'', JObj [])])])]"

definition eps_empty :: endpoints where
  "eps_empty = [(''/x'', []), (''/a'', [(''get'', operation_record [])])]"

















definition eps_reserved :: endpoints where
  "eps_reserved = [(''/_methods'', [(''get'', operation_record [])])]"

definition tree_reserved :: json where
  "tree_reserved =
     JObj [(''_methods'', JObj [(''_methods'', methods_json [(''get'', operation_record [])])])]"

section \<open>Lemmas: dictionaries\<close>

lemma keys_dict_set: "fst ` set (dict_set d k v) = insert k (fst ` set d)"
  by (induction d k v rule: dict_set.induct) auto

lemma set_dict_set_subset: "set (dict_set d k v) \<subseteq> insert (k, v) (set d)"
  by (induction d k v rule: dict_set.induct) auto

lemma map_of_dict_set: "map_of (dict_set d k v) = (map_of d)(k \<mapsto> v)"
  by (induction d k v rule: dict_set.induct) (auto simp: fun_eq_iff)

lemma distinct_dict_set: "distinct (map fst d) \<Longrightarrow> distinct (map fst (dict_set d k v))"
  by (induction d k v rule: dict_set.induct) (auto simp: keys_dict_set)

lemma dict_set_fresh: "k \<notin> fst ` set d \<Longrightarrow> dict_set d k v = d @ [(k, v)]"
  by (induction d k v rule: dict_set.induct) auto

lemma set_endpoint_pairs:
  "set (endpoint_pairs eps) = {(p, m). \<exists>ms. (p, ms) \<in> set eps \<and> m \<in> fst ` set ms}"
  by (force simp: endpoint_pairs_def)

section \<open>Lemmas: extraction\<close>

lemma extract_methods_char:
  "distinct (map fst item) \<Longrightarrow> list_all (\<lambda>(m, operation). is_method m \<longrightarrow> is_obj operation) item \<Longrightarrow>
   fst ` set acc \<inter> fst ` set item = {} \<Longrightarrow>
   extract_methods acc item =
     Inr (acc @ map (\<lambda>(m, operation). (m, operation_record (members operation)))
                  (filter (\<lambda>(m, operation). is_method m) item))"
proof (induction item arbitrary: acc)
  case Nil
  show ?case by simp
next
  case (Cons a item)
  obtain m operation where a: "a = (m, operation)" by (cases a)
  from Cons.prems a have d: "distinct (map fst item)" and m: "m \<notin> fst ` set item"
    and ok: "list_all (\<lambda>(m, operation). is_method m \<longrightarrow> is_obj operation) item"
    and fresh: "m \<notin> fst ` set acc" and disj: "fst ` set acc \<inter> fst ` set item = {}"
    by auto
  show ?case
  proof (cases "is_method m")
    case True
    with Cons.prems(2) a obtain op where op: "operation = JObj op"
      by (cases operation) auto
    let ?acc = "acc @ [(m, operation_record op)]"
    have "fst ` set ?acc \<inter> fst ` set item = {}" using disj m by auto
    from Cons.IH[OF d ok this] True a op fresh show ?thesis
      by (simp add: dict_set_fresh is_method_def)
  next
    case False
    with Cons.IH[OF d ok disj] a show ?thesis by (simp add: is_method_def)
  qed
qed

lemma extract_paths_char:
  "distinct (map fst paths) \<Longrightarrow> list_all (\<lambda>(p, item). valid_item item) paths \<Longrightarrow>
   fst ` set eps \<inter> fst ` set paths = {} \<Longrightarrow>
   extract_paths eps paths = Inr (eps @ map (\<lambda>(p, item). (p, item_methods item)) paths)"
proof (induction paths arbitrary: eps)
  case Nil
  show ?case by simp
next
  case (Cons a paths)
  obtain p item where a: "a = (p, item)" by (cases a)
  from Cons.prems a have d: "distinct (map fst paths)" and p: "p \<notin> fst ` set paths"
    and ok: "list_all (\<lambda>(p, item). valid_item item) paths" and v: "valid_item item"
    and fresh: "p \<notin> fst ` set eps" and disj: "fst ` set eps \<inter> fst ` set paths = {}"
    by auto
  from v obtain ops where ops: "item = JObj ops" by (cases item) (auto simp: valid_item_def)
  from v ops have "extract_methods [] ops = Inr (item_methods item)"
    using extract_methods_char[of ops "[]"] by (simp add: valid_item_def item_methods_def)
  moreover have "fst ` set (eps @ [(p, item_methods item)]) \<inter> fst ` set paths = {}"
    using disj p by auto
  note Cons.IH[OF d ok this]
  ultimately show ?case using a ops fresh by (simp add: dict_set_fresh)
qed

lemma extract_endpoints_char:
  assumes "valid_doc spec"
  shows "extract_endpoints spec = Inr (map (\<lambda>(p, item). (p, item_methods item)) (doc_paths spec))"
proof -
  from assms obtain d where d: "spec = JObj d" by (cases spec) (auto simp: valid_doc_def)
  from assms d obtain paths where paths: "dict_get d ''paths'' (JObj []) = JObj paths"
    by (cases "dict_get d ''paths'' (JObj [])") (auto simp: valid_doc_def)
  from assms d paths have "distinct (map fst paths)" "list_all (\<lambda>(p, item). valid_item item) paths"
    by (auto simp: valid_doc_def doc_paths_def)
  from extract_paths_char[OF this, of "[]"] d paths show ?thesis
    by (simp add: extract_endpoints_def doc_paths_def)
qed

lemma map_of_filter_key:
  "map_of (filter (\<lambda>(k, v). P k) xs) k = (if P k then map_of xs k else None)"
  by (induction xs) auto

lemma map_of_item_methods:
  "map_of (item_methods item) m =
     (if is_method m then map_option (\<lambda>operation. operation_record (members operation)) (map_of (members item) m)
      else None)"
  by (simp add: item_methods_def map_of_map map_of_filter_key)

lemma keys_map_filter:
  "map fst (map (\<lambda>(m, v). (m, f v)) (filter (\<lambda>(m, v). P m) xs)) = filter P (map fst xs)"
  by (induction xs) auto

lemma keys_item_methods: "map fst (item_methods item) = filter is_method (map fst (members item))"
  unfolding item_methods_def by (rule keys_map_filter)

lemma distinct_pair_keys: "distinct (map fst ms) \<Longrightarrow> distinct (map (\<lambda>(m, d). (p, m)) ms)"
  by (induction ms) (auto simp: image_iff)

lemma count_list_distinct: "distinct xs \<Longrightarrow> count_list xs x = (if x \<in> set xs then 1 else 0)"
  by (induction xs) auto

lemma distinct_endpoint_pairs:
  "distinct (map fst eps) \<Longrightarrow> \<forall>ms \<in> snd ` set eps. distinct (map fst ms) \<Longrightarrow>
   distinct (endpoint_pairs eps)"
proof (induction eps)
  case Nil
  show ?case by (simp add: endpoint_pairs_def)
next
  case (Cons a eps)
  obtain p ms where a: "a = (p, ms)" by (cases a)
  have split: "endpoint_pairs (a # eps) = map (\<lambda>(m, d). (p, m)) ms @ endpoint_pairs eps"
    using a by (simp add: endpoint_pairs_def)
  have 1: "distinct (map (\<lambda>(m, d). (p, m)) ms)"
    using Cons.prems(2) a by (simp add: distinct_pair_keys)
  have 2: "distinct (endpoint_pairs eps)" using Cons by simp
  have 3: "set (map (\<lambda>(m, d). (p, m)) ms) \<inter> set (endpoint_pairs eps) = {}"
    using Cons.prems(1) a by (force simp: set_endpoint_pairs)
  from 1 2 3 split show ?case by simp
qed

lemma operation_record_fields:
  "map fst (operation_record op) = map fst field_defaults"
  "(f, dflt) \<in> set field_defaults \<Longrightarrow> map_of (operation_record op) f = Some (dict_get op f dflt)"
  by (auto simp: operation_record_def field_defaults_def)

section \<open>Lemmas: runs\<close>

lemma then_run_skip [simp]: "then_run skip r = r" "then_run r skip = r"
  by (cases r; auto simp: then_run_def skip_def split: option.splits)+

lemma then_run_ok:
  "snd r1 = None \<Longrightarrow> then_run r1 r2 = (fst r1 @ fst r2, snd r2)"
  by (simp add: then_run_def)

lemma snd_then_run: "snd (then_run r1 r2) = None \<longleftrightarrow> snd r1 = None \<and> snd r2 = None"
  by (auto simp: then_run_def split: option.splits)

lemma set_fst_then_run: "set (fst (then_run r1 r2)) \<subseteq> set (fst r1) \<union> set (fst r2)"
  by (auto simp: then_run_def split: option.splits)

lemma then_run_assoc: "then_run (then_run a b) c = then_run a (then_run b c)"
  by (auto simp: then_run_def split: option.splits)

section \<open>Lemmas: search\<close>

lemma is_strE: "is_str v \<Longrightarrow> (\<And>s. v = Some (JStr s) \<Longrightarrow> P) \<Longrightarrow> P"
  by (cases v rule: is_str.cases) auto

lemma methods_text_ok_Cons:
  "methods_text_ok ((m, d) # ms) \<longleftrightarrow>
     is_str (map_of d ''summary'') \<and> is_str (map_of d ''description'') \<and> methods_text_ok ms"
  by (simp add: methods_text_ok_def)

lemma path_hit_ok: "methods_text_ok ms \<Longrightarrow> snd (path_hit ms) = None"
proof (induction ms)
  case Nil
  show ?case by (simp add: skip_def)
next
  case (Cons a ms)
  obtain m d where a: "a = (m, d)" by (cases a)
  from Cons.prems a obtain s where s: "map_of d ''summary'' = Some (JStr s)"
    by (auto simp: methods_text_ok_Cons elim: is_strE)
  from Cons a have "snd (path_hit ms) = None" by (simp add: methods_text_ok_Cons)
  with a s show ?case by (simp add: snd_then_run say_def)
qed

lemma path_hit_lines: "l \<in> set (fst (path_hit ms)) \<Longrightarrow> \<exists>m s. l = Out (method_line m s)"
proof (induction ms)
  case Nil
  then show ?case by (simp add: skip_def)
next
  case (Cons a ms)
  obtain m d where a: "a = (m, d)" by (cases a)
  show ?case
  proof (cases "map_of d ''summary''")
    case None
    with Cons.prems a show ?thesis by (simp add: raise_def)
  next
    case (Some s)
    with Cons.prems a have "l \<in> set (fst (say (method_line m s))) \<union> set (fst (path_hit ms))"
      using set_fst_then_run[of "say (method_line m s)" "path_hit ms"] by auto
    with Cons.IH show ?thesis by (auto simp: say_def)
  qed
qed

lemma text_search_first:
  "methods_text_ok ms \<Longrightarrow>
   text_search rx path ms =
     (case find (text_matches rx) ms of
        None \<Rightarrow> skip
      | Some (m, d) \<Rightarrow>
          ([Out [Lit (nl @ path)],
            Out [Lit (''  '' @ upper m @ '': ''), Lit (text_of (map_of d ''summary''))]], None))"
proof (induction ms)
  case Nil
  show ?case by simp
next
  case (Cons a ms)
  obtain m d where a: "a = (m, d)" by (cases a)
  from Cons.prems a obtain s t where
    s: "map_of d ''summary'' = Some (JStr s)" and t: "map_of d ''description'' = Some (JStr t)"
    by (auto simp: methods_text_ok_Cons elim!: is_strE)
  from Cons a have IH: "text_search rx path ms =
     (case find (text_matches rx) ms of
        None \<Rightarrow> skip
      | Some (m, d) \<Rightarrow>
          ([Out [Lit (nl @ path)],
            Out [Lit (''  '' @ upper m @ '': ''), Lit (text_of (map_of d ''summary''))]], None))"
    by (simp add: methods_text_ok_Cons)
  have tm: "text_matches rx (m, d) \<longleftrightarrow> rx s \<or> rx t"
    using s t by (simp add: text_matches_def)
  have hit: "text_hit path m (JStr s) =
      ([Out [Lit (nl @ path)], Out [Lit (''  '' @ upper m @ '': ''), Lit s]], None)"
    by (simp add: text_hit_def say_def then_run_def method_line_def)
  show ?case
  proof (cases "rx s")
    case True
    with a s tm hit show ?thesis by simp
  next
    case False
    show ?thesis
    proof (cases "rx t")
      case True
      with False a s t tm hit show ?thesis by simp
    next
      case nt: False
      with False a s t tm IH show ?thesis by simp
    qed
  qed
qed

lemma search_one_ok: "methods_text_ok ms \<Longrightarrow> snd (search_one rx path ms) = None"
  by (auto simp: search_one_def snd_then_run path_hit_ok text_search_first say_def skip_def
      split: option.splits)

lemma search_one_headers:
  assumes "methods_text_ok ms" "Out [Lit (nl @ q)] \<in> set (fst (search_one rx path ms))"
  shows "q = path"
proof -
  let ?h = "Out [Lit (nl @ q)]"
  have not_hit: "?h \<notin> set (fst (path_hit ms))"
    using path_hit_lines[of ?h ms] by (auto simp: method_line_def)
  from assms(2) have "?h \<in> set (fst (if rx path then then_run (say [Lit (nl @ path)]) (path_hit ms) else skip))
      \<or> ?h \<in> set (fst (text_search rx path ms))"
    unfolding search_one_def using set_fst_then_run by blast
  then show ?thesis
  proof
    assume "?h \<in> set (fst (if rx path then then_run (say [Lit (nl @ path)]) (path_hit ms) else skip))"
    then have "?h \<in> set (fst (say [Lit (nl @ path)])) \<union> set (fst (path_hit ms))"
      using set_fst_then_run[of "say [Lit (nl @ path)]" "path_hit ms"]
      by (auto simp: skip_def split: if_splits)
    with not_hit show ?thesis by (simp add: say_def)
  next
    assume "?h \<in> set (fst (text_search rx path ms))"
    then show ?thesis
      by (auto simp: text_search_first[OF assms(1)] skip_def split: option.splits)
  qed
qed

lemma text_ok_Cons: "text_ok ((path, ms) # eps) \<longleftrightarrow> methods_text_ok ms \<and> text_ok eps"
  by (simp add: text_ok_def methods_text_ok_def)

lemma text_ok_append: "text_ok (a @ b) \<longleftrightarrow> text_ok a \<and> text_ok b"
  by (simp add: text_ok_def)

lemma search_loop_ok: "text_ok eps \<Longrightarrow> snd (search_loop rx eps) = None"
proof (induction eps)
  case Nil
  show ?case by (simp add: skip_def)
next
  case (Cons a eps)
  obtain path ms where a: "a = (path, ms)" by (cases a)
  with Cons show ?case by (simp add: text_ok_Cons snd_then_run search_one_ok)
qed

lemma search_loop_headers:
  "text_ok eps \<Longrightarrow> Out [Lit (nl @ q)] \<in> set (fst (search_loop rx eps)) \<Longrightarrow> q \<in> fst ` set eps"
proof (induction eps)
  case Nil
  then show ?case by (simp add: skip_def)
next
  case (Cons a eps)
  obtain path ms where a: "a = (path, ms)" by (cases a)
  from Cons.prems(2) a have "Out [Lit (nl @ q)] \<in> set (fst (search_one rx path ms))
      \<or> Out [Lit (nl @ q)] \<in> set (fst (search_loop rx eps))"
    using set_fst_then_run[of "search_one rx path ms" "search_loop rx eps"] by auto
  then show ?case
  proof
    assume "Out [Lit (nl @ q)] \<in> set (fst (search_one rx path ms))"
    with Cons.prems(1) a have "q = path" by (auto simp: text_ok_Cons dest: search_one_headers)
    with a show ?thesis by simp
  next
    assume "Out [Lit (nl @ q)] \<in> set (fst (search_loop rx eps))"
    with Cons a show ?thesis by (simp add: text_ok_Cons)
  qed
qed

lemma search_loop_append:
  "search_loop rx (a @ b) = then_run (search_loop rx a) (search_loop rx b)"
  by (induction a) (auto simp: then_run_assoc)

lemma search_loop_concat:
  "text_ok eps \<Longrightarrow>
   search_loop rx eps = (concat (map (\<lambda>(p, ms). fst (search_one rx p ms)) eps), None)"
proof (induction eps)
  case Nil
  show ?case by (simp add: skip_def)
next
  case (Cons a eps)
  obtain p ms where a: "a = (p, ms)" by (cases a)
  from Cons.prems a have ok: "methods_text_ok ms" "text_ok eps" by (simp_all add: text_ok_Cons)
  from Cons.IH[OF ok(2)] search_one_ok[OF ok(1), of rx p] a show ?case
    by (simp add: then_run_def)
qed

lemma count_list_notin: "x \<notin> set xs \<Longrightarrow> count_list xs x = 0"
  by (induction xs) auto

section \<open>Lemmas: the path tree\<close>

lemma methods_at_empty [simp]: "methods_at (JObj []) ps = None"
  by (cases ps) auto

lemma wf_items_lookup:
  "wf_items kvs \<Longrightarrow> map_of kvs k = Some v \<Longrightarrow> k \<noteq> ''_methods'' \<Longrightarrow> wf_tree v"
  by (induction kvs) (auto split: if_splits)

lemma wf_items_dict_set:
  "wf_items kvs \<Longrightarrow> k = ''_methods'' \<or> wf_tree v \<Longrightarrow> wf_items (dict_set kvs k v)"
  by (induction kvs k v rule: dict_set.induct) auto

lemma wf_tree_child:
  "wf_tree (JObj kvs) \<Longrightarrow> k \<noteq> ''_methods'' \<Longrightarrow> wf_tree (dict_get kvs k (JObj []))"
  by (auto simp: dict_get_def split: option.splits dest: wf_items_lookup)

lemma insert_path_methods_at:
  "wf_tree t \<Longrightarrow> ''_methods'' \<notin> set qs \<Longrightarrow>
   \<exists>t'. insert_path t qs ms = Inr t' \<and> wf_tree t' \<and>
        (\<forall>ps. methods_at t' ps = (if ps = qs then Some ms else methods_at t ps))"
proof (induction qs arbitrary: t)
  case Nil
  then obtain kvs where t: "t = JObj kvs" by (cases t) auto
  have "methods_at (JObj (dict_set kvs ''_methods'' ms)) ps =
      (if ps = [] then Some ms else methods_at (JObj kvs) ps)" for ps
    by (cases ps) (auto simp: map_of_dict_set)
  with Nil t show ?case
    by (auto simp: distinct_dict_set wf_items_dict_set)
next
  case (Cons q qs)
  then obtain kvs where t: "t = JObj kvs" by (cases t) auto
  from Cons.prems have q: "q \<noteq> ''_methods''" and qs: "''_methods'' \<notin> set qs" by auto
  let ?child = "dict_get kvs q (JObj [])"
  have "wf_tree ?child" using Cons.prems(1) t q by (auto intro: wf_tree_child)
  from Cons.IH[OF this qs] obtain c' where
    c': "insert_path ?child qs ms = Inr c'" "wf_tree c'"
    "\<And>ps. methods_at c' ps = (if ps = qs then Some ms else methods_at ?child ps)"
    by blast
  have child_at: "methods_at ?child ps = (case map_of kvs q of None \<Rightarrow> None | Some c \<Rightarrow> methods_at c ps)" for ps
    by (simp add: dict_get_def split: option.splits)
  have "methods_at (JObj (dict_set kvs q c')) ps =
      (if ps = q # qs then Some ms else methods_at (JObj kvs) ps)" for ps
  proof (cases ps)
    case Nil
    with q show ?thesis by (simp add: map_of_dict_set)
  next
    case (Cons p ps')
    then show ?thesis using q c'(3)[of ps'] child_at[of ps']
      by (auto simp: map_of_dict_set)
  qed
  moreover have "wf_tree (JObj (dict_set kvs q c'))"
    using Cons.prems(1) t c'(2) by (auto simp: distinct_dict_set wf_items_dict_set)
  ultimately show ?case using t c'(1) by simp
qed

lemma group_paths_methods_at:
  "wf_tree t \<Longrightarrow> \<forall>p \<in> fst ` set eps. ''_methods'' \<notin> set (path_parts p) \<Longrightarrow>
   \<exists>t'. group_paths t eps = Inr t' \<and> wf_tree t' \<and>
        (\<forall>ps. methods_at t' ps =
           (case map_of (rev (parts_table eps)) ps of Some v \<Rightarrow> Some v | None \<Rightarrow> methods_at t ps))"
proof (induction eps arbitrary: t)
  case Nil
  then show ?case by (simp add: parts_table_def)
next
  case (Cons a eps)
  obtain p ms where a: "a = (p, ms)" by (cases a)
  from Cons.prems a have p: "''_methods'' \<notin> set (path_parts p)" by auto
  from insert_path_methods_at[OF Cons.prems(1) p, of "methods_json ms"] obtain t1 where
    t1: "insert_path t (path_parts p) (methods_json ms) = Inr t1" "wf_tree t1"
    "\<And>ps. methods_at t1 ps = (if ps = path_parts p then Some (methods_json ms) else methods_at t ps)"
    by blast
  from Cons.prems(2) have "\<forall>p \<in> fst ` set eps. ''_methods'' \<notin> set (path_parts p)" by auto
  from Cons.IH[OF t1(2) this] obtain t' where
    t': "group_paths t1 eps = Inr t'" "wf_tree t'"
    "\<And>ps. methods_at t' ps =
           (case map_of (rev (parts_table eps)) ps of Some v \<Rightarrow> Some v | None \<Rightarrow> methods_at t1 ps)"
    by blast
  have "methods_at t' ps =
     (case map_of (rev (parts_table (a # eps))) ps of Some v \<Rightarrow> Some v | None \<Rightarrow> methods_at t ps)" for ps
    using t'(3)[of ps] t1(3)[of ps] a
    by (auto simp: parts_table_def map_add_def split: option.splits)
  with t'(1,2) t1(1) a show ?case by simp
qed

lemma node_pairs_Nil: "node_pairs pre (JObj []) = {}"
  by (simp add: node_pairs_def)

lemma node_pairs_non_obj: "\<not> is_obj t \<Longrightarrow> node_pairs pre t = {}"
  by (cases t) (auto simp: node_pairs_def)

lemma node_pairs_Cons:
  assumes "k \<notin> fst ` set rest"
  shows "node_pairs pre (JObj ((k, v) # rest)) = item_pairs pre k v \<union> node_pairs pre (JObj rest)"
proof -
  have none: "map_of rest k = None" using assms by (simp add: map_of_eq_None_iff)
  have at: "methods_at (JObj ((k, v) # rest)) ps =
      (case ps of
         [] \<Rightarrow> if k = ''_methods'' then Some v else methods_at (JObj rest) []
       | p # ps' \<Rightarrow> if p = ''_methods'' then None
                    else if p = k then methods_at v ps' else methods_at (JObj rest) (p # ps'))" for ps
    by (cases ps) auto
  have rest_k: "methods_at (JObj rest) (k # ps') = None" for ps'
    using none by simp
  have rest_m: "k = ''_methods'' \<Longrightarrow> methods_at (JObj rest) [] = None"
    using none by simp
  have "(s, m) \<in> node_pairs pre (JObj ((k, v) # rest)) \<longleftrightarrow>
      (s, m) \<in> item_pairs pre k v \<union> node_pairs pre (JObj rest)" for s m
  proof
    assume "(s, m) \<in> node_pairs pre (JObj ((k, v) # rest))"
    then obtain ps ms where ps: "s = pre @ ps"
      "methods_at (JObj ((k, v) # rest)) ps = Some (JObj ms)" "m \<in> fst ` set ms"
      by (auto simp: node_pairs_def)
    show "(s, m) \<in> item_pairs pre k v \<union> node_pairs pre (JObj rest)"
    proof (cases ps)
      case Nil
      with ps show ?thesis
        by (cases "k = ''_methods''") (auto simp: item_pairs_def node_pairs_def)
    next
      case (Cons p ps')
      with ps(2) have pm: "p \<noteq> ''_methods''" by (auto split: if_splits)
      show ?thesis
      proof (cases "p = k")
        case True
        with ps Cons pm have "methods_at v ps' = Some (JObj ms)" by simp
        with ps(1,3) Cons True pm have "(s, m) \<in> node_pairs (pre @ [k]) v"
          by (auto simp: node_pairs_def)
        with True pm show ?thesis by (simp add: item_pairs_def)
      next
        case False
        with ps Cons pm have "methods_at (JObj rest) ps = Some (JObj ms)" by simp
        with ps(1,3) show ?thesis by (auto simp: node_pairs_def)
      qed
    qed
  next
    assume "(s, m) \<in> item_pairs pre k v \<union> node_pairs pre (JObj rest)"
    then show "(s, m) \<in> node_pairs pre (JObj ((k, v) # rest))"
    proof
      assume i: "(s, m) \<in> item_pairs pre k v"
      show ?thesis
      proof (cases "k = ''_methods''")
        case True
        with i obtain ms where "v = JObj ms" "s = pre" "m \<in> fst ` set ms"
          by (cases v) (auto simp: item_pairs_def)
        with True show ?thesis
          unfolding node_pairs_def by (auto intro!: exI[of _ "[]"])
      next
        case False
        with i obtain ps ms where "s = pre @ [k] @ ps" "methods_at v ps = Some (JObj ms)"
          "m \<in> fst ` set ms"
          by (auto simp: item_pairs_def node_pairs_def)
        with False show ?thesis
          unfolding node_pairs_def by (auto intro!: exI[of _ "k # ps"])
      qed
    next
      assume "(s, m) \<in> node_pairs pre (JObj rest)"
      then obtain ps ms where ps: "s = pre @ ps" "methods_at (JObj rest) ps = Some (JObj ms)"
        "m \<in> fst ` set ms"
        by (auto simp: node_pairs_def)
      have "methods_at (JObj ((k, v) # rest)) ps = Some (JObj ms)"
      proof (cases ps)
        case Nil
        with ps(2) rest_m show ?thesis by (cases "k = ''_methods''") auto
      next
        case (Cons p ps')
        with ps(2) rest_k[of ps'] show ?thesis by (auto split: if_splits)
      qed
      with ps(1,3) show ?thesis unfolding node_pairs_def by blast
    qed
  qed
  then show ?thesis by auto
qed

lemma tree_pairs_node_pairs:
  "(wf_tree t \<longrightarrow> set (tree_pairs pre t) = node_pairs pre t)"
  "(distinct (map fst kvs) \<and> wf_items kvs \<longrightarrow>
      set (tree_pairs_items pre kvs) = node_pairs pre (JObj kvs))"
proof (induction pre t and pre kvs rule: tree_pairs_tree_pairs_items.induct)
  case (1 pre kvs)
  then show ?case by simp
next
  case (4 pre k v rest)
  show ?case
  proof
    assume h: "distinct (map fst ((k, v) # rest)) \<and> wf_items ((k, v) # rest)"
    then have fresh: "k \<notin> fst ` set rest" and r: "distinct (map fst rest) \<and> wf_items rest"
      by auto
    have rest: "set (tree_pairs_items pre rest) = node_pairs pre (JObj rest)"
      using 4(2) r by blast
    have item: "set (if k = ''_methods''
        then (case v of JObj ms \<Rightarrow> map (\<lambda>(m, d). (pre, m)) ms | _ \<Rightarrow> [])
        else tree_pairs (pre @ [k]) v) = item_pairs pre k v"
    proof (cases "k = ''_methods''")
      case True
      then show ?thesis by (cases v) (auto simp: item_pairs_def intro: rev_image_eqI)
    next
      case False
      with h have "wf_tree v" by simp
      with 4(1) False show ?thesis by (simp add: item_pairs_def)
    qed
    show "set (tree_pairs_items pre ((k, v) # rest)) = node_pairs pre (JObj ((k, v) # rest))"
      using item rest node_pairs_Cons[OF fresh] by simp
  qed
qed (simp_all add: node_pairs_Nil)


lemma canonical_parts_inj:
  "canonical p \<Longrightarrow> canonical q \<Longrightarrow> path_parts p = path_parts q \<Longrightarrow> p = q"
  by (metis canonical_def)

lemma group_by_path_methods_at:
  assumes "distinct (map fst eps)" and "\<forall>p \<in> fst ` set eps. canonical p"
  shows "\<exists>t. group_by_path eps = Inr t \<and> wf_tree t \<and>
     (\<forall>ps v. methods_at t ps = Some v \<longleftrightarrow> (ps, v) \<in> set (parts_table eps))"
proof -
  have "wf_tree (JObj [])" by simp
  moreover have "\<forall>p \<in> fst ` set eps. ''_methods'' \<notin> set (path_parts p)"
    using assms(2) by (simp add: canonical_def)
  ultimately obtain t where t: "group_paths (JObj []) eps = Inr t" "wf_tree t"
    "\<And>ps. methods_at t ps =
        (case map_of (rev (parts_table eps)) ps of Some v \<Rightarrow> Some v | None \<Rightarrow> methods_at (JObj []) ps)"
    using group_paths_methods_at[of "JObj []" eps] by blast
  have "inj_on path_parts (fst ` set eps)"
    using assms(2) by (auto intro!: inj_onI canonical_parts_inj)
  then have "distinct (map path_parts (map fst eps))"
    using assms(1) by (simp add: distinct_map del: map_map)
  moreover have "map fst (parts_table eps) = map path_parts (map fst eps)"
    by (simp add: parts_table_def case_prod_beta)
  ultimately have "distinct (map fst (rev (parts_table eps)))"
    by (simp add: rev_map[symmetric])
  then have "map_of (rev (parts_table eps)) ps = Some v \<longleftrightarrow> (ps, v) \<in> set (parts_table eps)" for ps v
    using map_of_eq_Some_iff[of "rev (parts_table eps)" ps v] by simp
  moreover have "methods_at t ps = map_of (rev (parts_table eps)) ps" for ps
    using t(3)[of ps] by (simp split: option.splits)
  ultimately have "methods_at t ps = Some v \<longleftrightarrow> (ps, v) \<in> set (parts_table eps)" for ps v
    by simp
  with t(1,2) show ?thesis by (auto simp: group_by_path_def)
qed

section \<open>Lemmas: listing and categories\<close>

lemma has_summary_item_methods: "has_summary (item_methods item)"
  by (auto simp: has_summary_def item_methods_def list_all_iff operation_record_def)

lemma list_methods_ok: "has_summary ms \<Longrightarrow> snd (list_methods only ms) = None"
proof (induction ms)
  case Nil
  show ?case by (simp add: skip_def)
next
  case (Cons a ms)
  obtain m d where a: "a = (m, d)" by (cases a)
  from Cons.prems a obtain s where s: "map_of d ''summary'' = Some s"
    by (auto simp: has_summary_def)
  from Cons a have "snd (list_methods only ms) = None" by (simp add: has_summary_def)
  with a s show ?case by (simp add: snd_then_run say_def)
qed

lemma has_summary_sort: "has_summary ms \<Longrightarrow> has_summary (sort_key fst ms)"
  by (simp add: has_summary_def list_all_iff)

lemma list_paths_ok:
  "\<forall>ms \<in> snd ` set eps. has_summary ms \<Longrightarrow> snd (list_paths only eps) = None"
proof (induction eps)
  case Nil
  show ?case by (simp add: skip_def)
next
  case (Cons a eps)
  obtain p ms where a: "a = (p, ms)" by (cases a)
  with Cons show ?case
    by (simp add: snd_then_run say_def list_methods_ok has_summary_sort)
qed

lemma list_paths_append:
  "list_paths only (a @ b) = then_run (list_paths only a) (list_paths only b)"
  by (induction a) (auto simp: then_run_assoc)

























section \<open>Claims about tag grouping\<close>

text \<open>
  Claim C1 says that \<^verbatim>\<open>group_by_tag\<close> places an endpoint without tags once in the bucket
  \<^verbatim>\<open>"untagged"\<close>, so that the bucket sizes add up to the sum over the endpoints of
  \<open>max 1 (number of tags)\<close>. The default \<^verbatim>\<open>['untagged']\<close> of line 68 is taken only when
  the key \<^verbatim>\<open>tags\<close> is missing, and \<^verbatim>\<open>extract_endpoints\<close> always stores the key (with the
  empty list when the operation has no tags). On the document with the single
  operation \<^verbatim>\<open>GET /a\<close> without tags the extracted map has that one endpoint and the
  grouping has no bucket at all; the bucket \<^verbatim>\<open>"untagged"\<close> appears only for a record
  without the key, which extraction never produces.
\<close>

theorem group_by_tag_drops_untagged:
  "extract_endpoints doc_untagged =
     Inr [(''/a'', [(''get'', operation_record [(''summary'', JStr ''s'')])])] \<and>
   map_of (operation_record [(''summary'', JStr ''s'')]) ''tags'' = Some (JArr []) \<and>
   group_by_tag [(''/a'', [(''get'', operation_record [(''summary'', JStr ''s'')])])] = Inr [] \<and>
   group_by_tag [(''/a'', [(''get'', [(''summary'', JStr ''s'')])])] =
     Inr [(JStr ''untagged'', [\<lparr>e_path = ''/a'', e_method = ''GET'', e_summary = JStr ''s''\<rparr>])]"
  by code_simp

section \<open>Claims about path grouping\<close>

text \<open>
  Claim C2, as stated for arbitrary path strings, fails: \<^verbatim>\<open>strip('/')\<close> sends the two keys
  \<^verbatim>\<open>/a\<close> and \<^verbatim>\<open>/a/\<close> to the same node, whose \<^verbatim>\<open>'_methods'\<close> entry is overwritten by the
  second. The map extracted from \<open>doc_slash\<close> has two pairs, the tree gives back one.
  A segment equal to the reserved key is taken for the methods of its parent node: for
  the single path \<^verbatim>\<open>/_methods\<close> the walk gives back a pair that is not in the input.
\<close>

theorem group_by_path_merges_paths:
  "extract_endpoints doc_slash = Inr eps_slash \<and>
   group_by_path eps_slash = Inr tree_slash \<and>
   recovered_pairs tree_slash = [(''/a'', ''post'')] \<and>
   endpoint_pairs eps_slash = [(''/a'', ''get''), (''/a/'', ''post'')] \<and>
   set (recovered_pairs tree_slash) \<noteq> set (endpoint_pairs eps_slash) \<and>
   group_by_path eps_reserved = Inr tree_reserved \<and>
   recovered_pairs tree_reserved = [(''/'', ''_methods'')] \<and>
   endpoint_pairs eps_reserved = [(''/_methods'', ''get'')] \<and>
   set (recovered_pairs tree_reserved) \<noteq> set (endpoint_pairs eps_reserved)"
  by code_simp

text \<open>
  Claim C2, amended: for every endpoint map whose keys are canonical paths (a key is
  equal to \<^verbatim>\<open>'/'\<close> followed by its segments joined with \<^verbatim>\<open>'/'\<close>, and no segment is the
  reserved key \<^verbatim>\<open>'_methods'\<close>), \<^verbatim>\<open>group_by_path\<close> returns a tree, and the set of
  (path, method) pairs recovered by walking it and re-joining the segment keys equals
  the set of (path, method) pairs of the input.
\<close>

theorem group_by_path_lossless:
  assumes "distinct (map fst eps)" and "\<forall>p \<in> fst ` set eps. canonical p"
  shows "\<exists>t. group_by_path eps = Inr t \<and> set (recovered_pairs t) = set (endpoint_pairs eps)"
proof -
  from group_by_path_methods_at[OF assms] obtain t where t: "group_by_path eps = Inr t" "wf_tree t"
    "\<And>ps v. methods_at t ps = Some v \<longleftrightarrow> (ps, v) \<in> set (parts_table eps)"
    by blast
  have tp: "set (tree_pairs [] t) = node_pairs [] t"
    using tree_pairs_node_pairs(1)[of t "[]"] t(2) by simp
  have "(p, m) \<in> set (recovered_pairs t) \<longleftrightarrow> (p, m) \<in> set (endpoint_pairs eps)" for p m
  proof
    assume "(p, m) \<in> set (recovered_pairs t)"
    then obtain segs where "(segs, m) \<in> node_pairs [] t" "p = rejoin segs"
      using tp by (auto simp: recovered_pairs_def)
    then obtain ms' where "(segs, JObj ms') \<in> set (parts_table eps)" "m \<in> fst ` set ms'"
      using t(3) by (auto simp: node_pairs_def)
    then obtain q ms where q: "(q, ms) \<in> set eps" "segs = path_parts q" "m \<in> fst ` set ms"
      by (force simp: parts_table_def methods_json_def)
    with assms(2) have "rejoin segs = q" by (force simp: canonical_def)
    with q \<open>p = rejoin segs\<close> show "(p, m) \<in> set (endpoint_pairs eps)"
      by (auto simp: set_endpoint_pairs)
  next
    assume "(p, m) \<in> set (endpoint_pairs eps)"
    then obtain ms where ms: "(p, ms) \<in> set eps" "m \<in> fst ` set ms"
      by (auto simp: set_endpoint_pairs)
    then have "(path_parts p, methods_json ms) \<in> set (parts_table eps)"
      by (force simp: parts_table_def)
    then have "methods_at t (path_parts p) = Some (JObj (map (\<lambda>(m, d). (m, JObj d)) ms))"
      using t(3) by (simp add: methods_json_def)
    moreover have "m \<in> fst ` set (map (\<lambda>(m, d). (m, JObj d)) ms)"
      using ms(2) by force
    ultimately have "(path_parts p, m) \<in> node_pairs [] t"
      unfolding node_pairs_def by blast
    moreover have "rejoin (path_parts p) = p"
      using assms(2) ms(1) by (force simp: canonical_def)
    ultimately show "(p, m) \<in> set (recovered_pairs t)"
      using tp by (force simp: recovered_pairs_def)
  qed
  with t(1) show ?thesis by auto
qed

theorem group_by_path_lossless_witness:
  "distinct (map fst eps_users) \<and> canonical ''/users'' \<and>
   (\<exists>t. group_by_path eps_users = Inr t \<and> set (recovered_pairs t) = set (endpoint_pairs eps_users))"
proof -
  have d: "distinct (map fst eps_users)" by code_simp
  have k: "canonical ''/users''" by code_simp
  then have c: "\<forall>p \<in> fst ` set eps_users. canonical p" by (simp add: eps_users_def)
  from group_by_path_lossless[OF d c] d k show ?thesis by blast
qed

section \<open>Claims about extraction\<close>

text \<open>
  Claim C5: every method key of the extracted map is a lowercase string among get,
  post, put, delete, patch. The test of line 29 lowers the key, and the assignment of
  line 30 stores the key as the document writes it: an operation under \<^verbatim>\<open>GET\<close> is
  extracted under \<^verbatim>\<open>GET\<close>, which is not one of the five lowercase names.
\<close>

theorem extract_endpoints_keeps_case:
  "extract_endpoints doc_upper = Inr [(''/a'', [(''GET'', operation_record [])])] \<and>
   ''GET'' \<notin> set method_names"
  by code_simp

text \<open>
  Claim C4: for a specification document (a dictionary whose path items are
  dictionaries and whose operations under method keys are dictionaries), extraction
  succeeds; a (path, method) pair occurs exactly once in the output when the path item
  has that key and its lowercase form is one of get, post, put, delete, patch, and does
  not occur otherwise (every other key of a path item is ignored); the record of such a
  pair has exactly the seven fields, each holding the value of the operation when the
  operation has the key and the default (empty string, empty list or empty mapping)
  when it has not. No field of an operation is required.
\<close>

theorem extract_endpoints_complete:
  assumes "valid_doc spec"
  shows "\<exists>eps. extract_endpoints spec = Inr eps \<and>
     (\<forall>path m. count_list (endpoint_pairs eps) (path, m) =
        (if \<exists>item. map_of (doc_paths spec) path = Some item \<and> m \<in> fst ` set (members item) \<and> is_method m
         then 1 else 0)) \<and>
     (\<forall>path item m operation.
        map_of (doc_paths spec) path = Some item \<and> map_of (members item) m = Some operation \<and> is_method m \<longrightarrow>
        (\<exists>d. endpoint_at eps path m = Some d \<and> map fst d = map fst field_defaults \<and>
             (\<forall>(f, dflt) \<in> set field_defaults. map_of d f = Some (dict_get (members operation) f dflt))))"
proof -
  let ?paths = "doc_paths spec"
  let ?eps = "map (\<lambda>(p, item). (p, item_methods item)) ?paths"
  have e: "extract_endpoints spec = Inr ?eps" by (rule extract_endpoints_char[OF assms])
  have dp: "distinct (map fst ?paths)" and vi: "\<forall>(p, item) \<in> set ?paths. valid_item item"
    using assms by (auto simp: valid_doc_def list_all_iff)
  have keys: "map fst ?eps = map fst ?paths" by (simp add: case_prod_beta)
  have look: "map_of ?eps path = map_option item_methods (map_of ?paths path)" for path
    by (simp add: map_of_map)
  have dm: "\<forall>ms \<in> snd ` set ?eps. distinct (map fst ms)"
    using vi by (force simp: keys_item_methods valid_item_def)
  have dk: "distinct (map fst ?eps)" unfolding keys by (rule dp)
  have dist: "distinct (endpoint_pairs ?eps)"
    using dk dm by (rule distinct_endpoint_pairs)
  have mem: "(path, m) \<in> set (endpoint_pairs ?eps) \<longleftrightarrow>
      (\<exists>item. map_of ?paths path = Some item \<and> m \<in> fst ` set (members item) \<and> is_method m)" for path m
  proof -
    have "(path, m) \<in> set (endpoint_pairs ?eps) \<longleftrightarrow>
        (\<exists>item. (path, item) \<in> set ?paths \<and> m \<in> set (map fst (item_methods item)))"
      by (force simp: set_endpoint_pairs)
    also have "\<dots> \<longleftrightarrow> (\<exists>item. map_of ?paths path = Some item \<and> m \<in> fst ` set (members item) \<and> is_method m)"
      using dp by (auto simp: keys_item_methods)
    finally show ?thesis .
  qed
  have count: "count_list (endpoint_pairs ?eps) (path, m) =
        (if \<exists>item. map_of ?paths path = Some item \<and> m \<in> fst ` set (members item) \<and> is_method m
         then 1 else 0)" for path m
    using count_list_distinct[OF dist, of "(path, m)"] mem[of path m] by simp
  have rec: "\<exists>d. endpoint_at ?eps path m = Some d \<and> map fst d = map fst field_defaults \<and>
             (\<forall>(f, dflt) \<in> set field_defaults. map_of d f = Some (dict_get (members operation) f dflt))"
    if "map_of ?paths path = Some item" "map_of (members item) m = Some operation" "is_method m"
    for path item m operation
  proof -
    have "endpoint_at ?eps path m = Some (operation_record (members operation))"
      using that by (simp add: endpoint_at_def look map_of_item_methods)
    then show ?thesis using operation_record_fields[where op = "members operation"] by auto
  qed
  from e count rec show ?thesis by blast
qed

theorem extract_endpoints_complete_witness:
  "\<exists>eps. extract_endpoints doc_users = Inr eps \<and>
     count_list (endpoint_pairs eps) (''/users'', ''get'') = 1 \<and>
     (\<exists>d. endpoint_at eps ''/users'' ''get'' = Some d \<and>
          map_of d ''summary'' = Some (JStr ''List users'') \<and> map_of d ''tags'' = Some (JArr []))"
proof -
  let ?op = "JObj [(''summary'', JStr ''List users'')]"
  let ?item = "JObj [(''get'', ?op)]"
  have v: "valid_doc doc_users" by code_simp
  have p: "map_of (doc_paths doc_users) ''/users'' = Some ?item" by code_simp
  have m: "map_of (members ?item) ''get'' = Some ?op" by simp
  have k: "''get'' \<in> fst ` set (members ?item)" by simp
  have i: "is_method ''get''" by code_simp
  have s: "(''summary'', JStr []) \<in> set field_defaults" "(''tags'', JArr []) \<in> set field_defaults"
    by (simp_all add: field_defaults_def)
  from extract_endpoints_complete[OF v] obtain eps where
    eps: "extract_endpoints doc_users = Inr eps"
    and cnt: "\<And>path m. count_list (endpoint_pairs eps) (path, m) =
        (if \<exists>item. map_of (doc_paths doc_users) path = Some item \<and> m \<in> fst ` set (members item) \<and> is_method m
         then 1 else 0)"
    and rec: "\<And>path item m operation.
        map_of (doc_paths doc_users) path = Some item \<and> map_of (members item) m = Some operation \<and> is_method m \<Longrightarrow>
        (\<exists>d. endpoint_at eps path m = Some d \<and> map fst d = map fst field_defaults \<and>
             (\<forall>(f, dflt) \<in> set field_defaults. map_of d f = Some (dict_get (members operation) f dflt)))"
    by blast
  have "count_list (endpoint_pairs eps) (''/users'', ''get'') = 1"
    using cnt[of "''/users''" "''get''"] p k i by auto
  moreover from rec[of "''/users''" ?item "''get''" ?op] p m i obtain d where
    d: "endpoint_at eps ''/users'' ''get'' = Some d"
    "\<forall>(f, dflt) \<in> set field_defaults. map_of d f = Some (dict_get (members ?op) f dflt)"
    by blast
  have "map_of d ''summary'' = Some (JStr ''List users'')" "map_of d ''tags'' = Some (JArr [])"
    using d(2) s by (auto simp: dict_get_def)
  ultimately show ?thesis using eps d(1) by blast
qed

text \<open>
  Claim C9: every key of \<^verbatim>\<open>paths\<close> is a key of the extracted map, in the same order. A
  path whose item has no method key is mapped to the empty method dictionary; in the
  plain listing its path line is printed and is followed by the lines of the next
  path, with no method line; and when no path has the reserved segment \<^verbatim>\<open>'_methods'\<close>,
  the path tree has a \<^verbatim>\<open>'_methods'\<close> entry at the node of this path.
\<close>

theorem extract_endpoints_keeps_every_path:
  assumes "valid_doc spec"
  shows "\<exists>eps. extract_endpoints spec = Inr eps \<and> map fst eps = map fst (doc_paths spec) \<and>
     (\<forall>path item.
        map_of (doc_paths spec) path = Some item \<and>
        list_all (\<lambda>(m, operation). \<not> is_method m) (members item) \<longrightarrow>
        map_of eps path = Some [] \<and>
        (\<exists>a b. sort_key fst eps = a @ (path, []) # b \<and>
           list_endpoints only eps =
             (Out [Lit (nl @ ''Available Endpoints:'')] # fst (list_paths only a) @
              Out [Lit (nl @ path)] # fst (list_paths only b), None)) \<and>
        ((\<forall>p \<in> fst ` set eps. ''_methods'' \<notin> set (path_parts p)) \<longrightarrow>
           (\<exists>t v. group_by_path eps = Inr t \<and> methods_at t (path_parts path) = Some v)))"
proof -
  let ?paths = "doc_paths spec"
  let ?eps = "map (\<lambda>(p, item). (p, item_methods item)) ?paths"
  have e: "extract_endpoints spec = Inr ?eps" by (rule extract_endpoints_char[OF assms])
  have keys: "map fst ?eps = map fst ?paths" by (simp add: case_prod_beta)
  have look: "map_of ?eps path = map_option item_methods (map_of ?paths path)" for path
    by (simp add: map_of_map)
  have sums: "\<forall>ms \<in> snd ` set ?eps. has_summary ms"
    by (auto simp: has_summary_item_methods)
  have main: "map_of ?eps path = Some [] \<and>
        (\<exists>a b. sort_key fst ?eps = a @ (path, []) # b \<and>
           list_endpoints only ?eps =
             (Out [Lit (nl @ ''Available Endpoints:'')] # fst (list_paths only a) @
              Out [Lit (nl @ path)] # fst (list_paths only b), None)) \<and>
        ((\<forall>p \<in> fst ` set ?eps. ''_methods'' \<notin> set (path_parts p)) \<longrightarrow>
           (\<exists>t v. group_by_path ?eps = Inr t \<and> methods_at t (path_parts path) = Some v))"
    if item: "map_of ?paths path = Some item"
      and none: "list_all (\<lambda>(m, operation). \<not> is_method m) (members item)"
    for path item
  proof -
    have "filter (\<lambda>(m, operation). is_method m) (members item) = []"
      using none by (auto simp: list_all_iff filter_empty_conv)
    then have empty: "item_methods item = []" by (simp add: item_methods_def)
    with item have m1: "map_of ?eps path = Some []" by (simp add: look)
    then have mem: "(path, []) \<in> set ?eps" by (rule map_of_SomeD)
    then have "(path, []) \<in> set (sort_key fst ?eps)" by simp
    from split_list[OF this] obtain a b where ab: "sort_key fst ?eps = a @ (path, []) # b"
      by blast
    have "set a \<union> set b \<subseteq> set (sort_key fst ?eps)" by (auto simp: ab)
    then have sub: "set a \<subseteq> set ?eps" "set b \<subseteq> set ?eps" by auto
    have oka: "snd (list_paths only a) = None" and okb: "snd (list_paths only b) = None"
      using sums sub by (auto intro!: list_paths_ok)
    have "list_paths only (sort_key fst ?eps) =
        then_run (list_paths only a) (then_run (say [Lit (nl @ path)]) (list_paths only b))"
      by (simp add: ab list_paths_append)
    also have "\<dots> = (fst (list_paths only a) @ Out [Lit (nl @ path)] # fst (list_paths only b), None)"
      using oka okb by (simp add: then_run_def say_def)
    finally have m2: "list_endpoints only ?eps =
             (Out [Lit (nl @ ''Available Endpoints:'')] # fst (list_paths only a) @
              Out [Lit (nl @ path)] # fst (list_paths only b), None)"
      by (simp add: list_endpoints_def then_run_def say_def)
    have m3: "\<exists>t v. group_by_path ?eps = Inr t \<and> methods_at t (path_parts path) = Some v"
      if res: "\<forall>p \<in> fst ` set ?eps. ''_methods'' \<notin> set (path_parts p)"
    proof -
      have "wf_tree (JObj [])" by simp
      from group_paths_methods_at[OF this res] obtain t where
        t: "group_paths (JObj []) ?eps = Inr t"
        "\<And>ps. methods_at t ps =
           (case map_of (rev (parts_table ?eps)) ps of Some v \<Rightarrow> Some v
            | None \<Rightarrow> methods_at (JObj []) ps)"
        by blast
      have "(path_parts path, methods_json []) \<in> set (rev (parts_table ?eps))"
        using mem by (force simp: parts_table_def)
      from weak_map_of_SomeI[OF this]
      have "map_of (rev (parts_table ?eps)) (path_parts path) \<noteq> None"
        by blast
      then obtain v where "methods_at t (path_parts path) = Some v"
        using t(2)[of "path_parts path"] by auto
      with t(1) show ?thesis by (auto simp: group_by_path_def)
    qed
    from m1 ab m2 m3 show ?thesis by blast
  qed
  from e keys main show ?thesis by blast
qed

theorem extract_endpoints_keeps_every_path_witness:
  "extract_endpoints doc_empty = Inr eps_empty \<and> map fst eps_empty = [''/x'', ''/a''] \<and>
   map_of eps_empty ''/x'' = Some [] \<and>
   (\<exists>a b. sort_key fst eps_empty = a @ (''/x'', []) # b \<and>
      list_endpoints None eps_empty =
        (Out [Lit (nl @ ''Available Endpoints:'')] # fst (list_paths None a) @
         Out [Lit (nl @ ''/x'')] # fst (list_paths None b), None)) \<and>
   (\<exists>t v. group_by_path eps_empty = Inr t \<and> methods_at t (path_parts ''/x'') = Some v)"
proof -
  let ?item = "JObj [(''parameters'', JArr [])]"
  have v: "valid_doc doc_empty" by code_simp
  have e: "extract_endpoints doc_empty = Inr eps_empty" by code_simp
  have k: "map fst eps_empty = [''/x'', ''/a'']" by code_simp
  have p: "map_of (doc_paths doc_empty) ''/x'' = Some ?item" by code_simp
  have n: "list_all (\<lambda>(m, operation). \<not> is_method m) (members ?item)" by code_simp
  have r: "\<forall>p \<in> fst ` set eps_empty. ''_methods'' \<notin> set (path_parts p)" by code_simp
  from extract_endpoints_keeps_every_path[OF v, of None] e
  have "\<forall>path item.
        map_of (doc_paths doc_empty) path = Some item \<and>
        list_all (\<lambda>(m, operation). \<not> is_method m) (members item) \<longrightarrow>
        map_of eps_empty path = Some [] \<and>
        (\<exists>a b. sort_key fst eps_empty = a @ (path, []) # b \<and>
           list_endpoints None eps_empty =
             (Out [Lit (nl @ ''Available Endpoints:'')] # fst (list_paths None a) @
              Out [Lit (nl @ path)] # fst (list_paths None b), None)) \<and>
        ((\<forall>p \<in> fst ` set eps_empty. ''_methods'' \<notin> set (path_parts p)) \<longrightarrow>
           (\<exists>t v. group_by_path eps_empty = Inr t \<and> methods_at t (path_parts path) = Some v))"
    by auto
  from this[rule_format, of "''/x''" ?item] p n r e k show ?thesis by blast
qed

section \<open>Claims about search\<close>

text \<open>
  Claim C3 says that an endpoint whose path matches the pattern is reported once, and
  that its summaries and descriptions are then not matched against the pattern. The
  \<^verbatim>\<open>continue\<close> of line 128 sits inside the loop over the methods, so the loop over the
  text fields (lines 130-135) runs for every endpoint: with the pattern \<^verbatim>\<open>users\<close>, the
  endpoint \<^verbatim>\<open>/users\<close> whose summary is \<^verbatim>\<open>List users\<close> is reported twice.
\<close>

theorem search_reports_path_match_twice:
  "extract_endpoints doc_users = Inr eps_users \<and>
   search_endpoints re_literal eps_users ''users'' =
     ([Out [Lit (nl @ ''Matching Endpoints:'')],
       Out [Lit (nl @ ''/users'')], Out [Lit ''  GET: '', Lit ''List users''],
       Out [Lit (nl @ ''/users'')], Out [Lit ''  GET: '', Lit ''List users'']], None)"
  by code_simp

text \<open>
  Claim C6: when the pattern compiles, the keys of the endpoint map are distinct and the
  summaries and descriptions are strings, the search prints the heading and then, for
  each endpoint in order, the lines of that endpoint. For an endpoint whose path does
  not match and of which \<open>(method, details)\<close> is the first method, in encounter order,
  whose summary or description matches (the method key being ASCII), these lines are
  exactly two: the path and the line of that method; no later method of the endpoint
  is printed. The path line occurs exactly once in what follows the heading, and the
  run ends without an exception.
\<close>

theorem search_text_match_once:
  assumes "re_compile pattern = Some rx" and "distinct (map fst eps)" and "text_ok eps"
    and "(path, ms) \<in> set eps" and "\<not> rx path"
    and "find (text_matches rx) ms = Some (method, details)" and "is_ascii method"
  shows "search_endpoints re_compile eps pattern =
       (Out [Lit (nl @ ''Matching Endpoints:'')] #
        concat (map (\<lambda>(p, ms). fst (search_one rx p ms)) eps), None) \<and>
     search_one rx path ms =
       ([Out [Lit (nl @ path)],
         Out [Lit (''  '' @ upper method @ '': ''), Lit (text_of (map_of details ''summary''))]],
        None) \<and>
     count_list (concat (map (\<lambda>(p, ms). fst (search_one rx p ms)) eps)) (Out [Lit (nl @ path)]) = 1"
proof -
  let ?h = "Out [Lit (nl @ path)]"
  let ?body = "\<lambda>(p, ms). fst (search_one rx p ms)"
  from assms(4) obtain eps1 eps2 where eps: "eps = eps1 @ (path, ms) # eps2"
    by (auto dest: split_list)
  from assms(2) eps have fresh: "path \<notin> fst ` set eps1" "path \<notin> fst ` set eps2"
    by auto
  from assms(3) eps have ok: "text_ok eps1" "methods_text_ok ms" "text_ok eps2"
    by (auto simp: text_ok_append text_ok_Cons)
  have one: "search_one rx path ms =
       ([?h, Out [Lit (''  '' @ upper method @ '': ''), Lit (text_of (map_of details ''summary''))]],
        None)"
    using assms(5,6) by (simp add: search_one_def text_search_first[OF ok(2)])
  have out: "search_endpoints re_compile eps pattern =
       (Out [Lit (nl @ ''Matching Endpoints:'')] # concat (map ?body eps), None)"
    using assms(1) search_loop_concat[OF assms(3), of rx]
    by (simp add: search_endpoints_def then_run_def say_def)
  have n1: "?h \<notin> set (concat (map ?body eps1))"
  proof
    assume "?h \<in> set (concat (map ?body eps1))"
    then have "?h \<in> set (fst (search_loop rx eps1))"
      by (simp only: search_loop_concat[OF ok(1)] fst_conv)
    from search_loop_headers[OF ok(1) this] fresh(1) show False by simp
  qed
  have n2: "?h \<notin> set (concat (map ?body eps2))"
  proof
    assume "?h \<in> set (concat (map ?body eps2))"
    then have "?h \<in> set (fst (search_loop rx eps2))"
      by (simp only: search_loop_concat[OF ok(3)] fst_conv)
    from search_loop_headers[OF ok(3) this] fresh(2) show False by simp
  qed
  have "count_list (concat (map ?body eps)) ?h = 1"
    using count_list_notin[OF n1] count_list_notin[OF n2] one by (simp add: eps)
  with out one show ?thesis by blast
qed

theorem search_text_match_once_witness:
  "re_literal ''list'' = Some rx_list \<and> distinct (map fst eps_items) \<and> text_ok eps_items \<and>
   (''/items'', ms_items) \<in> set eps_items \<and> \<not> rx_list ''/items'' \<and>
   find (text_matches rx_list) ms_items =
     Some (''get'', operation_record [(''summary'', JStr ''List items'')]) \<and>
   is_ascii ''get'' \<and>
   search_endpoints re_literal eps_items ''list'' =
     ([Out [Lit (nl @ ''Matching Endpoints:'')], Out [Lit (nl @ ''/items'')],
       Out [Lit ''  GET: '', Lit ''List items'']], None)"
proof -
  have h1: "re_literal ''list'' = Some rx_list"
    by (simp add: re_literal_def rx_list_def metachars_def)
  have h2: "distinct (map fst eps_items)" by code_simp
  have h3: "text_ok eps_items" by code_simp
  have h4: "(''/items'', ms_items) \<in> set eps_items" by (simp add: eps_items_def)
  have h5: "\<not> rx_list ''/items''" by code_simp
  have h6: "find (text_matches rx_list) ms_items =
     Some (''get'', operation_record [(''summary'', JStr ''List items'')])"
    by code_simp
  have h7: "is_ascii ''get''" by code_simp
  have u: "upper ''get'' = ''GET''" by code_simp
  have t: "text_of (map_of (operation_record [(''summary'', JStr ''List items'')]) ''summary'')
      = ''List items''" by code_simp
  from search_text_match_once[where re_compile = re_literal and pattern = "''list''", OF h1 h2 h3 h4 h5 h6 h7]
  have "search_endpoints re_literal eps_items ''list'' =
     ([Out [Lit (nl @ ''Matching Endpoints:'')], Out [Lit (nl @ ''/items'')],
       Out [Lit ''  GET: '', Lit ''List items'']], None)"
    by (simp add: eps_items_def u t)
  with h1 h2 h3 h4 h5 h6 h7 show ?thesis by blast
qed

text \<open>
  Claim C10: \<^verbatim>\<open>search_endpoints\<close> is partial in its pattern. When the pattern does not
  compile, the exception of \<^verbatim>\<open>re.compile\<close> ends the run before anything is printed; so
  a run without exception needs a pattern that compiles, and with such a pattern (the
  summaries and descriptions being strings) no exception is raised.
\<close>

theorem search_endpoints_pattern:
  "(re_compile pattern = None \<longrightarrow> search_endpoints re_compile eps pattern = ([], Some ReError)) \<and>
   (re_compile pattern \<noteq> None \<and> text_ok eps \<longrightarrow> snd (search_endpoints re_compile eps pattern) = None)"
  by (auto simp: search_endpoints_def raise_def snd_then_run say_def search_loop_ok)

theorem search_endpoints_pattern_witness:
  "re_literal ''('' = None \<and> search_endpoints re_literal eps_users ''('' = ([], Some ReError) \<and>
   re_literal ''users'' \<noteq> None \<and> text_ok eps_users \<and>
   snd (search_endpoints re_literal eps_users ''users'') = None"
proof -
  have bad: "re_literal ''('' = None" by (simp add: re_literal_def metachars_def)
  have good: "re_literal ''users'' \<noteq> None" by (simp add: re_literal_def metachars_def)
  have ok: "text_ok eps_users" by code_simp
  from search_endpoints_pattern[of re_literal "''(''" eps_users]
       search_endpoints_pattern[of re_literal "''users''" eps_users] bad good ok
  show ?thesis by blast
qed

section \<open>Claims about lookups\<close>

text \<open>
  Claim C7: looking up an endpoint path that is not a key of the endpoint map, or a
  schema name that is not a key of \<^verbatim>\<open>components.schemas\<close>, prints one not-found line to
  the error stream and returns without an exception. Both procedures only read their
  arguments: the run is all they produce.
\<close>

theorem lookup_not_found:
  "(map_of eps path = None \<longrightarrow>
      show_endpoint_details eps path = ([Err [Lit (''Endpoint '' @ path @ '' not found'')]], None)) \<and>
   (spec = JObj d \<and> dict_get d ''components'' (JObj []) = JObj components \<and>
    dict_get components ''schemas'' (JObj []) = JObj schemas \<and> map_of schemas schema_name = None \<longrightarrow>
      print_schema spec schema_name =
        ([Err [Lit (''Schema '' @ quoted schema_name @ '' not found'')]], None))"
  by (simp add: show_endpoint_details_def print_schema_def schema_not_found_def say_err_def)

theorem lookup_not_found_witness:
  "map_of eps_users ''/nope'' = None \<and>
   show_endpoint_details eps_users ''/nope'' = ([Err [Lit ''Endpoint /nope not found'']], None) \<and>
   doc_schemas = JObj [(''components'', JObj [(''schemas'', JObj [(''Bar'', JObj [])])])] \<and>
   dict_get [(''components'', JObj [(''schemas'', JObj [(''Bar'', JObj [])])])] ''components'' (JObj [])
     = JObj [(''schemas'', JObj [(''Bar'', JObj [])])] \<and>
   dict_get [(''schemas'', JObj [(''Bar'', JObj [])])] ''schemas'' (JObj []) = JObj [(''Bar'', JObj [])] \<and>
   map_of [(''Bar'', JObj [])] ''Foo'' = None \<and>
   print_schema doc_schemas ''Foo'' = ([Err [Lit (''Schema '' @ quoted ''Foo'' @ '' not found'')]], None)"
proof -
  have a: "map_of eps_users ''/nope'' = None" by code_simp
  have b: "doc_schemas = JObj [(''components'', JObj [(''schemas'', JObj [(''Bar'', JObj [])])])] \<and>
   dict_get [(''components'', JObj [(''schemas'', JObj [(''Bar'', JObj [])])])] ''components'' (JObj [])
     = JObj [(''schemas'', JObj [(''Bar'', JObj [])])] \<and>
   dict_get [(''schemas'', JObj [(''Bar'', JObj [])])] ''schemas'' (JObj []) = JObj [(''Bar'', JObj [])] \<and>
   map_of [(''Bar'', JObj [])] ''Foo'' = None"
    by code_simp
  from lookup_not_found[of eps_users "''/nope''" doc_schemas
      "[(''components'', JObj [(''schemas'', JObj [(''Bar'', JObj [])])])]"
      "[(''schemas'', JObj [(''Bar'', JObj [])])]" "[(''Bar'', JObj [])]" "''Foo''"] a b
  show ?thesis by simp
qed



end
